theory Spec2Isabelle
  imports Complex_Main
begin

section \<open>Grover search driver (Cirq/CirqOracles/Grover/grover.py)\<close>

text \<open>
  The module builds a circuit for Grover's algorithm out of collaborators that live
  outside the file: the circuit primitives of the quantum library, the adapter
  \<open>run_flip_marker_as_phase_marker\<close> together with the oracle library, and the simulator.
  The model keeps the three functions of the module and threads the two mutable objects
  they share, the circuit and the qubit list, through every call.
\<close>

subsection \<open>Circuits, registers and failures\<close>

text \<open>
  A qubit of the library is a named qubit; \<open>str\<close> of it is its name. An operation of a
  circuit is a Hadamard or a Pauli X on one qubit, a measurement of one qubit under a
  key, or an operation of the oracle library, which the module never looks into
  (type \<open>'g\<close>). A circuit is the list of its operations in the order they were appended;
  the library packs them into moments, which keeps the order of the operations on each
  qubit.
\<close>

datatype qid = NamedQubit string

fun str_qid :: "qid \<Rightarrow> string" where
  "str_qid (NamedQubit nm) = nm"

datatype 'g op = H qid | X qid | Measure qid string | Ext 'g

text \<open>
  The circuit and the qubit list are Python objects that every callee receives by
  reference, so both are state: a callee may change either.
\<close>

record 'g state =
  circuit :: "'g op list"
  qubits :: "qid list"

text \<open>
  An exception leaves the module through every caller, since no function of the module
  catches one: \<open>Raised\<close> is an exception of a collaborator, \<open>OverflowError\<close> the one of
  a float power outside the range of a double, \<open>IndexError\<close> the one of a list assignment
  out of range. What the shared objects hold at the moment of a raise is not kept.
\<close>

datatype error = Raised string | OverflowError | IndexError

definition bindE :: "error + 'a \<Rightarrow> ('a \<Rightarrow> error + 'b) \<Rightarrow> error + 'b" where
  "bindE m f = (case m of Inl e \<Rightarrow> Inl e | Inr x \<Rightarrow> f x)"

text \<open>\<open>cirq.H.on_each(*qubits)\<close>, \<open>cirq.measure_each(*qubits)\<close> and \<open>circuit.append\<close>.\<close>

definition H_on_each :: "qid list \<Rightarrow> 'g op list" where
  "H_on_each qs = map H qs"

definition measure_each :: "qid list \<Rightarrow> 'g op list" where
  "measure_each qs = map (\<lambda>q. Measure q (str_qid q)) qs"

definition circuit_append :: "'g op list \<Rightarrow> 'g state \<Rightarrow> 'g state" where
  "circuit_append ops s = s\<lparr>circuit := circuit s @ ops\<rparr>"

text \<open>
  \<open>run_flip_marker_as_phase_marker(circuit, oracle, qubits, oracle_args)\<close> is imported from
  another module. It receives the circuit and the qubit list by reference and an oracle
  (type \<open>'o\<close>) and its argument object (\<open>None\<close> or a value of type \<open>'a\<close>) by value; it may
  raise.
\<close>

type_synonym ('o, 'a, 'g) adapter = "'o \<Rightarrow> 'a option \<Rightarrow> 'g state \<Rightarrow> error + 'g state"

subsection \<open>\<open>grover_iteration\<close>\<close>

text \<open>
  The parameters \<open>rfm\<close> and \<open>zeros\<close> stand for the two imported names the body uses,
  \<open>run_flip_marker_as_phase_marker\<close> and \<open>oracles.check_if_all_zeros\<close>.
\<close>

definition grover_iteration ::
  "('o, 'a, 'g) adapter \<Rightarrow> 'o \<Rightarrow> 'o \<Rightarrow> 'a option \<Rightarrow> 'g state \<Rightarrow> error + 'g state" where
  "grover_iteration rfm zeros oracle oracle_args s =
     bindE (rfm oracle oracle_args s) (\<lambda>s1.
     let s2 = circuit_append (H_on_each (qubits s1)) s1 in
     bindE (rfm zeros None s2) (\<lambda>s3.
     Inr (circuit_append (H_on_each (qubits s3)) s3)))"

subsection \<open>\<open>grover_search\<close>\<close>

text \<open>
  Python's \<open>round\<close> on a float rounds to the nearest integer and sends a tie to the even
  neighbour.
\<close>

definition py_round :: "real \<Rightarrow> int" where
  "py_round x =
     (let f = \<lfloor>x\<rfloor>; d = x - of_int f
      in if d < 1 / 2 then f
         else if 1 / 2 < d then f + 1
         else if even f then f else f + 1)"

text \<open>
  \<open>2 ** x\<close> for a float \<open>x\<close>. The power of a float raises \<open>OverflowError\<close> when the result
  is beyond the largest double; among the arguments that occur here, the halves of the
  natural numbers, that is the case from \<open>1024.0\<close> on. Below that the model takes the
  power in exact real arithmetic: the rounding error of the double is not modelled.
\<close>

definition float_pow2 :: "real \<Rightarrow> error + real" where
  "float_pow2 x = (if 1024 \<le> x then Inl OverflowError else Inr (2 powr x))"

text \<open>\<open>iterations = round(2 ** (len(qubits) / 2))\<close>, with \<open>n\<close> for \<open>len(qubits)\<close>.\<close>

definition iterations :: "nat \<Rightarrow> error + int" where
  "iterations n = bindE (float_pow2 (real n / 2)) (\<lambda>p. Inr (py_round p))"

text \<open>\<open>for i in range(0, k): body\<close> on the shared state; a raise ends the loop.\<close>

fun for_range :: "nat \<Rightarrow> ('s \<Rightarrow> error + 's) \<Rightarrow> 's \<Rightarrow> error + 's" where
  "for_range 0 body s = Inr s"
| "for_range (Suc k) body s = bindE (body s) (for_range k body)"

definition grover_search ::
  "('o, 'a, 'g) adapter \<Rightarrow> 'o \<Rightarrow> 'o \<Rightarrow> 'a option \<Rightarrow> 'g state \<Rightarrow> error + 'g state" where
  "grover_search rfm zeros oracle oracle_args s =
     (let s1 = circuit_append (H_on_each (qubits s)) s in
      bindE (iterations (length (qubits s1))) (\<lambda>k.
      for_range (nat k) (grover_iteration rfm zeros oracle oracle_args) s1))"

subsection \<open>\<open>run_grover_search\<close>\<close>

text \<open>\<open>str(i)\<close> of a non-negative integer: its decimal digits.\<close>

definition digit_char :: "nat \<Rightarrow> char" where
  "digit_char d = ''0123456789'' ! d"

fun str_nat :: "nat \<Rightarrow> string" where
  "str_nat n = (if n < 10 then [digit_char n] else str_nat (n div 10) @ [digit_char (n mod 10)])"

declare str_nat.simps [simp del]

text \<open>
  \<open>cirq.NamedQubit.range(n, prefix=p)\<close> is the list of the qubits named \<open>p + str(i)\<close> for
  \<open>i\<close> in \<open>range(n)\<close>, which is empty for \<open>n \<le> 0\<close>.
\<close>

definition NamedQubit_range :: "int \<Rightarrow> string \<Rightarrow> qid list" where
  "NamedQubit_range n prefix = map (\<lambda>i. NamedQubit (prefix @ str_nat i)) [0..<nat n]"

text \<open>
  The simulator and the result object it returns belong to the library: \<open>run\<close> takes the
  circuit and the number of repetitions, and \<open>histogram\<close> of the result under a key is a
  counter, read here as the list of its \<open>(state, count)\<close> items in iteration order. Both
  may raise. The record collects what \<open>run_grover_search\<close> imports; its first field
  stands for the imported \<open>run_flip_marker_as_phase_marker\<close>.
\<close>

record ('o, 'a, 'g, 'r) collaborators =
  flip_marker_as_phase_marker :: "('o, 'a, 'g) adapter"
  check_if_all_zeros :: 'o
  simulator_run :: "'g op list \<Rightarrow> nat \<Rightarrow> error + 'r"
  histogram :: "'r \<Rightarrow> string \<Rightarrow> error + (int \<times> nat) list"

text \<open>
  The body of the outer loop: \<open>solution[i]\<close> becomes the state of the first item of the
  histogram under the key \<open>f"qubit{i}"\<close> and is left alone when the histogram has no item.
  The assignment raises when \<open>i\<close> is not an index of the list.
\<close>

definition read_qubit ::
  "('r \<Rightarrow> string \<Rightarrow> error + (int \<times> nat) list) \<Rightarrow> 'r \<Rightarrow> nat \<Rightarrow> int list \<Rightarrow> error + int list" where
  "read_qubit hist result i solution =
     bindE (hist result (''qubit'' @ str_nat i)) (\<lambda>result_state.
     case result_state of
       [] \<Rightarrow> Inr solution
     | (st, count) # rest \<Rightarrow>
         if i < length solution then Inr (solution[i := st]) else Inl IndexError)"

fun read_solution ::
  "('r \<Rightarrow> string \<Rightarrow> error + (int \<times> nat) list) \<Rightarrow> 'r \<Rightarrow> nat list \<Rightarrow> int list \<Rightarrow> error + int list" where
  "read_solution hist result [] solution = Inr solution"
| "read_solution hist result (i # is) solution =
     bindE (read_qubit hist result i solution) (read_solution hist result is)"

text \<open>Lines 99 to 102: the register, the empty circuit, the search and the measurements.\<close>

definition build_circuit ::
  "('o, 'a, 'g, 'r) collaborators \<Rightarrow> int \<Rightarrow> 'o \<Rightarrow> 'a option \<Rightarrow> error + 'g state" where
  "build_circuit K number_of_qubits oracle oracle_args =
     (let s0 = \<lparr>circuit = [], qubits = NamedQubit_range number_of_qubits ''qubit''\<rparr> in
      bindE (grover_search (flip_marker_as_phase_marker K) (check_if_all_zeros K)
               oracle oracle_args s0) (\<lambda>s1.
      Inr (circuit_append (measure_each (qubits s1)) s1)))"

text \<open>Lines 105 to 116: one run of the simulator, and the answer read from its result.\<close>

definition run_grover_search ::
  "('o, 'a, 'g, 'r) collaborators \<Rightarrow> int \<Rightarrow> 'o \<Rightarrow> 'a option \<Rightarrow> error + int list" where
  "run_grover_search K number_of_qubits oracle oracle_args =
     bindE (build_circuit K number_of_qubits oracle oracle_args) (\<lambda>s.
     bindE (simulator_run K (circuit s) 1) (\<lambda>result.
     read_solution (histogram K) result [0..<nat number_of_qubits]
       (replicate (nat number_of_qubits) 0)))"

subsection \<open>What a collaborator is assumed to do\<close>

text \<open>
  The adapter is not part of the module, so what it does to the circuit and to the qubit
  list is an assumption wherever a property needs one. A call \<open>appends\<close> the operations
  \<open>ops\<close> when it returns, leaves the qubit list alone and puts \<open>ops (qubits s)\<close> after
  the circuit it received. A call \<open>extends\<close> when, if it returns, it has left the qubit
  list alone and kept the circuit it received as a prefix. A call \<open>returns\<close> when it
  never raises.
\<close>

definition appends :: "('g state \<Rightarrow> error + 'g state) \<Rightarrow> (qid list \<Rightarrow> 'g op list) \<Rightarrow> bool" where
  "appends f ops \<longleftrightarrow> (\<forall>s. f s = Inr (circuit_append (ops (qubits s)) s))"

definition extends :: "('g state \<Rightarrow> error + 'g state) \<Rightarrow> bool" where
  "extends f \<longleftrightarrow>
     (\<forall>s s'. f s = Inr s' \<longrightarrow> qubits s' = qubits s \<and> (\<exists>ops. circuit s' = circuit s @ ops))"


subsection \<open>Quantities the properties speak of\<close>

text \<open>
  The number of rounds when the power does not overflow, the operations of one round
  and of a whole search over a register \<open>qs\<close>, and what the read-out loop leaves at an
  index that held \<open>d\<close>, given what \<open>histogram\<close> answered for its key: the state of the
  first item, or \<open>d\<close> when there is none.
\<close>

definition round_count :: "nat \<Rightarrow> int" where
  "round_count n = py_round (2 powr (real n / 2))"

text \<open>
  The same number in integer arithmetic: the integer square root by halving, and with it
  the integer nearest to the square root of \<open>2 ^ n\<close>.
\<close>

fun isqrt :: "nat \<Rightarrow> nat" where
  "isqrt n =
     (if n < 2 then n
      else let r = 2 * isqrt (n div 4) in if (r + 1) * (r + 1) \<le> n then r + 1 else r)"

declare isqrt.simps [simp del]

definition round_count_exact :: "nat \<Rightarrow> int" where
  "round_count_exact n =
     (if even n then 2 ^ (n div 2) else (int (isqrt (2 ^ (n + 2))) + 1) div 2)"

definition round_ops :: "(qid list \<Rightarrow> 'g op list) \<Rightarrow> (qid list \<Rightarrow> 'g op list) \<Rightarrow> qid list \<Rightarrow> 'g op list" where
  "round_ops marked_oracle marked_zeros qs =
     marked_oracle qs @ map H qs @ marked_zeros qs @ map H qs"

definition search_ops :: "(qid list \<Rightarrow> 'g op list) \<Rightarrow> (qid list \<Rightarrow> 'g op list) \<Rightarrow> qid list \<Rightarrow> 'g op list" where
  "search_ops marked_oracle marked_zeros qs =
     map H qs @ concat (replicate (nat (round_count (length qs))) (round_ops marked_oracle marked_zeros qs))"

definition first_state :: "error + (int \<times> nat) list \<Rightarrow> int \<Rightarrow> int" where
  "first_state h d = (case h of Inr ((st, count) # rest) \<Rightarrow> st | _ \<Rightarrow> d)"

section \<open>The oracle adapter\<close>

subsection \<open>State vectors\<close>

text \<open>
  A basis state gives every qubit a bit; a state vector gives every basis state an
  amplitude. A gate on the qubit \<open>q\<close> acts on the amplitudes of the two basis states that
  differ at \<open>q\<close> only.
\<close>

type_synonym basis = "qid \<Rightarrow> bool"

type_synonym qstate = "basis \<Rightarrow> complex"

definition apply_X :: "qid \<Rightarrow> qstate \<Rightarrow> qstate" where
  "apply_X q \<psi> = (\<lambda>b. \<psi> (b(q := \<not> b q)))"

definition apply_H :: "qid \<Rightarrow> qstate \<Rightarrow> qstate" where
  "apply_H q \<psi> =
     (\<lambda>b. (\<psi> (b(q := False)) + (if b q then - 1 else 1) * \<psi> (b(q := True))) / complex_of_real (sqrt 2))"

text \<open>
  The operator of a circuit, given the operators \<open>sem\<close> of the library's other gates. A
  measurement is not an operator on state vectors, so a circuit with one has none.
\<close>

fun denote_op :: "('g \<Rightarrow> qstate \<Rightarrow> qstate) \<Rightarrow> 'g op \<Rightarrow> qstate \<Rightarrow> qstate option" where
  "denote_op sem (H q) \<psi> = Some (apply_H q \<psi>)"
| "denote_op sem (X q) \<psi> = Some (apply_X q \<psi>)"
| "denote_op sem (Measure q k) \<psi> = None"
| "denote_op sem (Ext g) \<psi> = Some (sem g \<psi>)"

fun denote :: "('g \<Rightarrow> qstate \<Rightarrow> qstate) \<Rightarrow> 'g op list \<Rightarrow> qstate \<Rightarrow> qstate option" where
  "denote sem [] \<psi> = Some \<psi>"
| "denote sem (x # xs) \<psi> =
     (case denote_op sem x \<psi> of None \<Rightarrow> None | Some \<psi>' \<Rightarrow> denote sem xs \<psi>')"

subsection \<open>Marking and phase marking\<close>

text \<open>
  A predicate \<open>f\<close> on the bits of the register \<open>qs\<close> is marked on the flag qubit \<open>t\<close> by
  the operator that flips \<open>t\<close> in the basis states whose register bits satisfy \<open>f\<close>, and
  phase-marked by the operator that negates the amplitude of those basis states in which
  the auxiliary qubit is zero.
\<close>

definition flip_marked :: "(bool list \<Rightarrow> bool) \<Rightarrow> qid list \<Rightarrow> qid \<Rightarrow> qstate \<Rightarrow> qstate" where
  "flip_marked f qs t \<psi> = (\<lambda>b. \<psi> (if f (map b qs) then b(t := \<not> b t) else b))"

definition phase_marked :: "(bool list \<Rightarrow> bool) \<Rightarrow> qid list \<Rightarrow> qid \<Rightarrow> qstate \<Rightarrow> qstate" where
  "phase_marked f qs aux \<psi> = (\<lambda>b. if f (map b qs) \<and> \<not> b aux then - \<psi> b else \<psi> b)"

text \<open>
  An oracle is called as \<open>oracle(circuit, qubits, target, oracle_args)\<close>. With the argument
  object \<open>args\<close> it is a marking oracle for \<open>f\<close> when, on every register and every flag
  qubit outside it, it returns having appended operations whose operator marks \<open>f\<close>.
\<close>

type_synonym ('a, 'g) marker = "'g state \<Rightarrow> qid \<Rightarrow> 'a option \<Rightarrow> error + 'g state"

definition marks ::
  "('g \<Rightarrow> qstate \<Rightarrow> qstate) \<Rightarrow> ('a, 'g) marker \<Rightarrow> 'a option \<Rightarrow> (bool list \<Rightarrow> bool) \<Rightarrow> bool" where
  "marks sem oracle args f \<longleftrightarrow>
     (\<forall>s t. t \<notin> set (qubits s) \<longrightarrow>
        (\<exists>ops. oracle s t args = Inr (circuit_append ops s) \<and>
               (\<forall>\<psi>. denote sem ops \<psi> = Some (flip_marked f (qubits s) t \<psi>))))"

subsection \<open>\<open>run_flip_marker_as_phase_marker\<close>\<close>

text \<open>
  Modelled from the spec: the module \<open>utility\<close>, which defines
  \<open>run_flip_marker_as_phase_marker\<close>, is not among the sources. The specification gives its
  construction: allocate one auxiliary qubit initialised to zero, apply a transformation
  bringing it to an equal superposition, run the marking oracle with the auxiliary qubit
  as its flip target, apply the inverse transformation to the auxiliary qubit, and
  discard it. The equal superposition is taken to be the one with amplitudes
  \<open>1 / sqrt 2\<close> and \<open>- 1 / sqrt 2\<close>, reached by X followed by H, on which a flip acts as a
  change of sign. The auxiliary qubit \<open>aux\<close> is whichever qubit the allocation yields.
\<close>

definition run_flip_marker_as_phase_marker ::
  "qid \<Rightarrow> ('a, 'g) marker \<Rightarrow> 'a option \<Rightarrow> 'g state \<Rightarrow> error + 'g state" where
  "run_flip_marker_as_phase_marker aux oracle oracle_args s =
     (let s1 = circuit_append [X aux, H aux] s in
      bindE (oracle s1 aux oracle_args) (\<lambda>s2.
      Inr (circuit_append [H aux, X aux] s2)))"

text \<open>
  Modelled from the spec: the same sentences of the specification read with the other
  equal superposition, the one with amplitudes \<open>1 / sqrt 2\<close> and \<open>1 / sqrt 2\<close> that H
  alone reaches, for comparison.
\<close>

definition run_flip_marker_with_plus_state ::
  "qid \<Rightarrow> ('a, 'g) marker \<Rightarrow> 'a option \<Rightarrow> 'g state \<Rightarrow> error + 'g state" where
  "run_flip_marker_with_plus_state aux oracle oracle_args s =
     (let s1 = circuit_append [H aux] s in
      bindE (oracle s1 aux oracle_args) (\<lambda>s2.
      Inr (circuit_append [H aux] s2)))"

section \<open>Example collaborators\<close>

text \<open>
  A small oracle library over one gate, which flips a flag qubit in the basis states
  whose register bits satisfy a predicate: \<open>check_bits\<close> marks the bit string given as
  its argument object, \<open>check_zeros\<close> the string of zeros. The example simulator samples
  1 for the key \<open>qubit0\<close> and 0 for the key \<open>qubit1\<close> in every trial and nothing for any
  other key.
\<close>

datatype flag_gate = FlipIf "bool list \<Rightarrow> bool" "qid list" qid

fun sem_flag :: "flag_gate \<Rightarrow> qstate \<Rightarrow> qstate" where
  "sem_flag (FlipIf f qs t) \<psi> = flip_marked f qs t \<psi>"

definition bits_equal :: "bool list option \<Rightarrow> bool list \<Rightarrow> bool" where
  "bits_equal args bs \<longleftrightarrow> Some bs = args"

definition all_zero :: "bool list \<Rightarrow> bool" where
  "all_zero bs \<longleftrightarrow> True \<notin> set bs"

definition check_bits :: "(bool list, flag_gate) marker" where
  "check_bits s target args =
     Inr (circuit_append [Ext (FlipIf (bits_equal args) (qubits s) target)] s)"

definition check_zeros :: "(bool list, flag_gate) marker" where
  "check_zeros s target args =
     Inr (circuit_append [Ext (FlipIf all_zero (qubits s) target)] s)"

definition phase_marker :: qid where
  "phase_marker = NamedQubit ''phase_marker''"

text \<open>What the adapter appends for an oracle of this library that marks \<open>f\<close>.\<close>

definition example_marked :: "(bool list \<Rightarrow> bool) \<Rightarrow> qid list \<Rightarrow> flag_gate op list" where
  "example_marked f qs =
     [X phase_marker, H phase_marker, Ext (FlipIf f qs phase_marker),
      H phase_marker, X phase_marker]"

definition example_run :: "flag_gate op list \<Rightarrow> nat \<Rightarrow> error + (string \<Rightarrow> (int \<times> nat) list)" where
  "example_run c repetitions =
     Inr (\<lambda>key. if key = ''qubit0'' then [(1, repetitions)]
                else if key = ''qubit1'' then [(0, repetitions)]
                else [])"

definition example_collaborators ::
  "((bool list, flag_gate) marker, bool list, flag_gate, string \<Rightarrow> (int \<times> nat) list) collaborators" where
  "example_collaborators =
     \<lparr>flip_marker_as_phase_marker = run_flip_marker_as_phase_marker phase_marker,
      check_if_all_zeros = check_zeros,
      simulator_run = example_run,
      histogram = (\<lambda>result key. Inr (result key))\<rparr>"

section \<open>Properties\<close>

subsection \<open>Failures and the shared objects\<close>

lemma bindE_Inr [simp]: "bindE (Inr x) f = f x"
  by (simp add: bindE_def)

lemma bindE_Inl [simp]: "bindE (Inl e) f = Inl e"
  by (simp add: bindE_def)

lemma bindE_eq_Inr: "bindE m f = Inr y \<longleftrightarrow> (\<exists>x. m = Inr x \<and> f x = Inr y)"
  by (cases m) simp_all

lemma qubits_circuit_append [simp]: "qubits (circuit_append ops s) = qubits s"
  by (simp add: circuit_append_def)

lemma circuit_circuit_append [simp]: "circuit (circuit_append ops s) = circuit s @ ops"
  by (simp add: circuit_append_def)

lemma circuit_append_append:
  "circuit_append ys (circuit_append xs s) = circuit_append (xs @ ys) s"
  by (simp add: circuit_append_def)

lemma circuit_append_Nil [simp]: "circuit_append [] s = s"
  by (simp add: circuit_append_def)

lemma for_range_1: "for_range (Suc 0) body s = body s"
  by (cases "body s") simp_all

subsection \<open>The number of rounds\<close>

lemma py_round_unique:
  assumes "of_int y - 1 / 2 < x" and "x < of_int y + 1 / 2"
  shows "py_round x = y"
proof -
  have "\<lfloor>x\<rfloor> = y \<or> \<lfloor>x\<rfloor> = y - 1"
    using assms by linarith
  then show ?thesis
  proof
    assume f: "\<lfloor>x\<rfloor> = y"
    then have "x - of_int \<lfloor>x\<rfloor> < 1 / 2" using assms by simp
    then show ?thesis by (simp add: py_round_def Let_def f)
  next
    assume f: "\<lfloor>x\<rfloor> = y - 1"
    then have "1 / 2 < x - of_int \<lfloor>x\<rfloor>" using assms by simp
    then show ?thesis by (simp add: py_round_def Let_def f)
  qed
qed

lemma py_round_of_int: "py_round (of_int k) = k"
  by (rule py_round_unique) simp_all

lemma two_powr_even: "2 powr (real (2 * k) / 2) = (2::real) ^ k"
  by (simp add: powr_realpow)

lemma two_powr_odd: "2 powr (real (2 * k + 1) / 2) = (2::real) ^ k * sqrt 2"
proof -
  have "real (2 * k + 1) / 2 = real k + 1 / 2" by simp
  then have "2 powr (real (2 * k + 1) / 2) = 2 powr (real k) * 2 powr (1 / 2)"
    by (simp only: powr_add)
  then show ?thesis by (simp add: powr_realpow powr_half_sqrt)
qed

lemma round_count_even: "round_count (2 * k) = 2 ^ k"
proof -
  have "round_count (2 * k) = py_round (of_int (2 ^ k))"
    unfolding round_count_def two_powr_even by simp
  then show ?thesis by (simp only: py_round_of_int)
qed

text \<open>
  For an odd size the power is \<open>2 ^ k * sqrt 2\<close>; the nearest integer \<open>r\<close> is the one with
  \<open>(2 r - 1)\<^sup>2 < 2 ^ (2 k + 3) < (2 r + 1)\<^sup>2\<close>.
\<close>

lemma round_count_odd:
  assumes "1 \<le> r"
    and lo: "(2 * r - 1) ^ 2 < (2::int) ^ (2 * k + 3)"
    and hi: "(2::int) ^ (2 * k + 3) < (2 * r + 1) ^ 2"
  shows "round_count (2 * k + 1) = r"
proof -
  let ?x = "(2::real) ^ k * sqrt 2"
  have "(2 * ?x) ^ 2 = 4 * ((2::real) ^ k) ^ 2 * (sqrt 2) ^ 2"
    by (simp only: power_mult_distrib) simp
  also have "\<dots> = 4 * (2::real) ^ (2 * k) * 2"
    by (simp add: power_mult [symmetric] mult.commute)
  also have "\<dots> = 2 ^ (2 * k + 3)"
    by (simp add: power_add)
  finally have sq: "(2 * ?x) ^ 2 = 2 ^ (2 * k + 3)" .
  have x0: "0 \<le> 2 * ?x" by simp
  have "(real_of_int (2 * r - 1)) ^ 2 < (2 * ?x) ^ 2"
  proof -
    have "real_of_int ((2 * r - 1) ^ 2) < real_of_int (2 ^ (2 * k + 3))"
      using lo by (simp only: of_int_less_iff)
    then show ?thesis unfolding sq by simp
  qed
  then have a: "real_of_int (2 * r - 1) < 2 * ?x"
    using x0 by (rule power2_less_imp_less)
  have "(2 * ?x) ^ 2 < (real_of_int (2 * r + 1)) ^ 2"
  proof -
    have "real_of_int (2 ^ (2 * k + 3)) < real_of_int ((2 * r + 1) ^ 2)"
      using hi by (simp only: of_int_less_iff)
    then show ?thesis unfolding sq by simp
  qed
  moreover have "0 \<le> real_of_int (2 * r + 1)" using assms(1) by simp
  ultimately have b: "2 * ?x < real_of_int (2 * r + 1)"
    by (rule power2_less_imp_less)
  have "py_round ?x = r"
    by (rule py_round_unique) (use a b in simp_all)
  then show ?thesis unfolding round_count_def two_powr_odd .
qed

text \<open>The power is never half way between two integers, so no tie is ever broken.\<close>

lemma no_tie_odd: "(2::real) ^ k * sqrt 2 \<noteq> of_int m + 1 / 2"
proof
  assume eq: "(2::real) ^ k * sqrt 2 = of_int m + 1 / 2"
  have "(2 * ((2::real) ^ k * sqrt 2)) ^ 2 = 4 * ((2::real) ^ k) ^ 2 * (sqrt 2) ^ 2"
    by (simp only: power_mult_distrib) simp
  also have "\<dots> = 4 * (2::real) ^ (2 * k) * 2"
    by (simp add: power_mult [symmetric] mult.commute)
  also have "\<dots> = 2 ^ (2 * k + 3)"
    by (simp add: power_add)
  finally have sq: "(2 * ((2::real) ^ k * sqrt 2)) ^ 2 = 2 ^ (2 * k + 3)" .
  have "2 * ((2::real) ^ k * sqrt 2) = of_int (2 * m + 1)"
    using eq by simp
  then have "(of_int (2 * m + 1) :: real) ^ 2 = 2 ^ (2 * k + 3)"
    using sq by simp
  then have "real_of_int ((2 * m + 1) ^ 2) = real_of_int (2 ^ (2 * k + 3))"
    by simp
  then have "(2 * m + 1) ^ 2 = (2::int) ^ (2 * k + 3)"
    by (simp only: of_int_eq_iff)
  moreover have "odd ((2 * m + 1) ^ 2)" by simp
  moreover have "even ((2::int) ^ (2 * k + 3))" by simp
  ultimately show False by simp
qed

lemma py_round_eq_round:
  assumes "\<And>m. x \<noteq> of_int m + 1 / 2"
  shows "py_round x = round x"
proof -
  have "x - of_int \<lfloor>x\<rfloor> \<noteq> 1 / 2"
    using assms [of "\<lfloor>x\<rfloor>"] by auto
  then consider "x - of_int \<lfloor>x\<rfloor> < 1 / 2" | "1 / 2 < x - of_int \<lfloor>x\<rfloor>"
    by linarith
  then show ?thesis
  proof cases
    case 1
    then have "round x = \<lfloor>x\<rfloor>" unfolding round_def by linarith
    with 1 show ?thesis by (simp add: py_round_def Let_def)
  next
    case 2
    then have "round x = \<lfloor>x\<rfloor> + 1" unfolding round_def by linarith
    with 2 show ?thesis by (simp add: py_round_def Let_def)
  qed
qed

lemma round_count_eq_round: "round_count n = round (2 powr (real n / 2))"
proof (cases "even n")
  case True
  then obtain k where n: "n = 2 * k" by (auto elim: evenE)
  show ?thesis
    unfolding n round_count_even two_powr_even
    by (metis of_int_numeral of_int_power round_of_int)
next
  case False
  then obtain k where n: "n = 2 * k + 1" by (auto elim: oddE)
  show ?thesis
    unfolding n round_count_def two_powr_odd
    by (rule py_round_eq_round) (rule no_tie_odd)
qed

text \<open>There is always at least one round.\<close>

lemma round_count_pos: "1 \<le> round_count n"
proof -
  have "(1::real) \<le> 2 powr (real n / 2)"
    by (rule ge_one_powr_ge_zero) simp_all
  then have "round (1::real) \<le> round (2 powr (real n / 2))"
    by (rule round_mono)
  then show ?thesis by (simp add: round_count_eq_round)
qed


lemma round_count_1: "round_count (Suc 0) = 1"
  using round_count_odd [of 1 0] by simp




text \<open>The number of rounds in integer arithmetic.\<close>

lemma isqrt_0: "isqrt 0 = 0" by (subst isqrt.simps) simp
lemma isqrt_1: "isqrt (Suc 0) = Suc 0" by (subst isqrt.simps) simp

lemma isqrt_bounds: "isqrt n * isqrt n \<le> n \<and> n < (isqrt n + 1) * (isqrt n + 1)"
proof (induction n rule: isqrt.induct)
  case (1 n)
  show ?case
  proof (cases "n < 2")
    case True
    then have "n = 0 \<or> n = Suc 0" by auto
    then show ?thesis by (auto simp: isqrt_0 isqrt_1)
  next
    case False
    define m where "m = isqrt (n div 4)"
    from "1.IH" [OF False] have lo: "m * m \<le> n div 4" and hi: "n div 4 < (m + 1) * (m + 1)"
      by (simp_all add: m_def)
    have lo': "(2 * m) * (2 * m) \<le> n"
    proof -
      have "4 * (m * m) \<le> 4 * (n div 4)" using lo by simp
      also have "\<dots> \<le> n" by simp
      finally show ?thesis by (simp add: algebra_simps)
    qed
    have hi': "n < (2 * m + 2) * (2 * m + 2)"
    proof -
      have "n div 4 + 1 \<le> (m + 1) * (m + 1)" using hi by simp
      then have "4 * (n div 4 + 1) \<le> 4 * ((m + 1) * (m + 1))" by simp
      moreover have "n < 4 * (n div 4 + 1)" by simp
      ultimately have "n < 4 * ((m + 1) * (m + 1))" by linarith
      then show ?thesis by (simp add: algebra_simps)
    qed
    have eq: "isqrt n = (if (2 * m + 1) * (2 * m + 1) \<le> n then 2 * m + 1 else 2 * m)"
      using False by (subst isqrt.simps) (simp add: Let_def m_def)
    show ?thesis
    proof (cases "(2 * m + 1) * (2 * m + 1) \<le> n")
      case True
      then show ?thesis using hi' by (simp add: eq)
    next
      case False
      then show ?thesis using lo' by (simp add: eq)
    qed
  qed
qed

lemma odd_power_not_square: "(s::nat) * s \<noteq> 2 ^ (2 * k + 1)"
proof (induction k arbitrary: s)
  case 0
  show ?case
  proof
    assume eq: "s * s = 2 ^ (2 * 0 + 1)"
    then have "s * s = 2" by simp
    moreover have "s < 2 \<or> 2 \<le> s" by auto
    moreover have "s * s \<le> 1" if "s < 2"
      using that by (cases s) auto
    moreover have "4 \<le> s * s" if "2 \<le> s"
      using mult_le_mono [OF that that] by simp
    ultimately show False by force
  qed
next
  case (Suc k)
  show ?case
  proof
    assume eq: "s * s = 2 ^ (2 * Suc k + 1)"
    then have "even (s * s)" by simp
    then have "even s" by simp
    then obtain t where s: "s = 2 * t" by (auto elim: evenE)
    from eq have "4 * (t * t) = 4 * 2 ^ (2 * k + 1)"
      by (simp add: s)
    then have "t * t = 2 ^ (2 * k + 1)" by simp
    with Suc.IH [of t] show False by simp
  qed
qed

lemma round_count_code [code]: "round_count n = round_count_exact n"
proof (cases "even n")
  case True
  then obtain k where n: "n = 2 * k" by (auto elim: evenE)
  show ?thesis unfolding n round_count_even round_count_exact_def by simp
next
  case False
  then obtain k where n: "n = 2 * k + 1" by (auto elim: oddE)
  define M :: nat where "M = 2 ^ (2 * k + 3)"
  define s where "s = isqrt M"
  have lo: "s * s \<le> M" and hi: "M < (s + 1) * (s + 1)"
    using isqrt_bounds [of M] by (simp_all add: s_def)
  have "2 * k + 3 = 2 * (k + 1) + 1" by simp
  then have "s * s \<noteq> M"
    unfolding M_def using odd_power_not_square [of s "k + 1"] by presburger
  with lo have lo': "s * s < M" by simp
  have "(8::nat) * 1 \<le> 8 * 2 ^ (2 * k)"
    by (rule mult_le_mono2) simp
  then have M8: "8 \<le> M"
    by (simp add: M_def power_add)
  have s2: "2 \<le> s"
  proof (rule ccontr)
    assume "\<not> 2 \<le> s"
    then have le: "s + 1 \<le> 2" by simp
    have "(s + 1) * (s + 1) \<le> 2 * 2" by (rule mult_le_mono [OF le le])
    with hi M8 show False by simp
  qed
  define r :: int where "r = (int s + 1) div 2"
  have r1: "1 \<le> r" using s2 unfolding r_def by linarith
  have rs1: "2 * r - 1 \<le> int s" unfolding r_def by linarith
  have rs2: "int s \<le> 2 * r" unfolding r_def by linarith
  have iM: "int M = 2 ^ (2 * k + 3)" by (simp add: M_def)
  have a: "(2 * r - 1) ^ 2 < (2::int) ^ (2 * k + 3)"
  proof -
    have "0 \<le> 2 * r - 1" using r1 by simp
    then have "(2 * r - 1) ^ 2 \<le> (int s) ^ 2"
      using rs1 by (rule power_mono [rotated])
    also have "\<dots> = int (s * s)" by (simp add: power2_eq_square)
    also have "\<dots> < int M" using lo' by (simp only: of_nat_less_iff)
    finally show ?thesis by (simp only: iM)
  qed
  have b: "(2::int) ^ (2 * k + 3) < (2 * r + 1) ^ 2"
  proof -
    have "int M < int ((s + 1) * (s + 1))" using hi by (simp only: of_nat_less_iff)
    also have "\<dots> = (int s + 1) ^ 2" by (simp add: power2_eq_square algebra_simps)
    also have "\<dots> \<le> (2 * r + 1) ^ 2"
    proof (rule power_mono)
      show "int s + 1 \<le> 2 * r + 1" using rs2 by simp
      show "0 \<le> int s + 1" by simp
    qed
    finally show ?thesis by (simp only: iM)
  qed
  have "round_count (2 * k + 1) = r"
    by (rule round_count_odd [OF r1 a b])
  moreover have "round_count_exact (2 * k + 1) = r"
  proof -
    have odd: "\<not> even (2 * k + 1)" by simp
    have e: "2 * k + 1 + 2 = 2 * k + 3" by simp
    show ?thesis
      unfolding round_count_exact_def if_not_P [OF odd] e r_def s_def M_def ..
  qed
  ultimately show ?thesis unfolding n by simp
qed

text \<open>The power overflows from a register of 2048 qubits on, and only there.\<close>

lemma iterations_eq [code]:
  "iterations n = (if 2048 \<le> n then Inl OverflowError else Inr (round_count n))"
  by (simp add: iterations_def float_pow2_def round_count_def)

subsection \<open>A collaborator that appends\<close>

lemma appendsD: "appends f ops \<Longrightarrow> f s = Inr (circuit_append (ops (qubits s)) s)"
  by (simp add: appends_def)


lemma grover_iteration_appends:
  assumes "appends (rfm oracle oracle_args) marked_oracle"
    and "appends (rfm zeros None) marked_zeros"
  shows "appends (grover_iteration rfm zeros oracle oracle_args)
           (round_ops marked_oracle marked_zeros)"
  unfolding appends_def
proof
  fix s
  show "grover_iteration rfm zeros oracle oracle_args s =
          Inr (circuit_append (round_ops marked_oracle marked_zeros (qubits s)) s)"
    by (simp add: grover_iteration_def appendsD [OF assms(1)] appendsD [OF assms(2)]
        Let_def H_on_each_def round_ops_def circuit_append_append)
qed

lemma for_range_appends:
  assumes "appends body ops"
  shows "for_range k body s = Inr (circuit_append (concat (replicate k (ops (qubits s)))) s)"
proof (induction k arbitrary: s)
  case 0
  show ?case by simp
next
  case (Suc k)
  have "body s = Inr (circuit_append (ops (qubits s)) s)"
    by (rule appendsD [OF assms])
  then show ?case
    by (simp add: Suc.IH circuit_append_append)
qed

lemma grover_search_appends:
  assumes "appends (rfm oracle oracle_args) marked_oracle"
    and "appends (rfm zeros None) marked_zeros"
  shows "grover_search rfm zeros oracle oracle_args s =
           (if 2048 \<le> length (qubits s) then Inl OverflowError
            else Inr (circuit_append (search_ops marked_oracle marked_zeros (qubits s)) s))"
  by (simp add: grover_search_def Let_def iterations_eq H_on_each_def search_ops_def
      for_range_appends [OF grover_iteration_appends [OF assms]] circuit_append_append)

subsection \<open>A collaborator that extends\<close>

lemma extendsD:
  "extends f \<Longrightarrow> f s = Inr s' \<Longrightarrow> qubits s' = qubits s \<and> (\<exists>ops. circuit s' = circuit s @ ops)"
  unfolding extends_def by blast

lemma extends_bindE:
  assumes "extends f" and "extends g"
  shows "extends (\<lambda>s. bindE (f s) g)"
  unfolding extends_def
proof (intro allI impI)
  fix s s'
  assume "bindE (f s) g = Inr s'"
  then obtain s1 where f: "f s = Inr s1" and g: "g s1 = Inr s'"
    by (auto simp: bindE_eq_Inr)
  from extendsD [OF assms(1) f] obtain xs where
    q1: "qubits s1 = qubits s" and c1: "circuit s1 = circuit s @ xs" by blast
  from extendsD [OF assms(2) g] obtain ys where
    q2: "qubits s' = qubits s1" and c2: "circuit s' = circuit s1 @ ys" by blast
  have "circuit s' = circuit s @ (xs @ ys)" using c1 c2 by simp
  then have "\<exists>ops. circuit s' = circuit s @ ops" ..
  then show "qubits s' = qubits s \<and> (\<exists>ops. circuit s' = circuit s @ ops)"
    using q1 q2 by simp
qed

lemma grover_iteration_extends:
  fixes rfm :: "('o, 'a, 'g) adapter"
  assumes "extends (rfm oracle oracle_args)" and "extends (rfm zeros None)"
  shows "extends (grover_iteration rfm zeros oracle oracle_args)"
proof -
  let ?h = "\<lambda>s. Inr (circuit_append (H_on_each (qubits s)) s) :: error + 'g state"
  have h: "extends ?h"
    by (auto simp: extends_def)
  have "grover_iteration rfm zeros oracle oracle_args =
          (\<lambda>s. bindE (bindE (bindE (rfm oracle oracle_args s) ?h) (rfm zeros None)) ?h)"
    by (rule ext) (auto simp: grover_iteration_def Let_def bindE_def split: sum.splits)
  moreover have "extends (\<lambda>s. bindE (bindE (bindE (rfm oracle oracle_args s) ?h) (rfm zeros None)) ?h)"
    by (intro extends_bindE assms h)
  ultimately show ?thesis by simp
qed

lemma for_range_extends:
  assumes "extends body"
  shows "extends (for_range k body)"
proof (induction k)
  case 0
  show ?case by (auto simp: extends_def)
next
  case (Suc k)
  have "for_range (Suc k) body = (\<lambda>s. bindE (body s) (for_range k body))"
    by (rule ext) simp
  then show ?case using extends_bindE [OF assms Suc.IH] by simp
qed

lemma grover_search_extends:
  fixes rfm :: "('o, 'a, 'g) adapter"
  assumes "extends (rfm oracle oracle_args)" and "extends (rfm zeros None)"
  shows "extends (grover_search rfm zeros oracle oracle_args)"
proof -
  have loop: "extends (for_range k (grover_iteration rfm zeros oracle oracle_args))" for k
    by (rule for_range_extends [OF grover_iteration_extends [OF assms]])
  show ?thesis
    unfolding extends_def
  proof (intro allI impI)
    fix s s'
    assume "grover_search rfm zeros oracle oracle_args s = Inr s'"
    then obtain k where run: "for_range (nat k) (grover_iteration rfm zeros oracle oracle_args)
                 (circuit_append (H_on_each (qubits s)) s) = Inr s'"
      by (auto simp: grover_search_def Let_def bindE_eq_Inr)
    from extendsD [OF loop run] obtain ys where
      "qubits s' = qubits s" and "circuit s' = circuit s @ H_on_each (qubits s) @ ys"
      by auto
    then show "qubits s' = qubits s \<and> (\<exists>ops. circuit s' = circuit s @ ops)"
      by blast
  qed
qed

subsection \<open>A collaborator that returns\<close>





subsection \<open>The operator of the adapter's circuit\<close>

lemma denote_append:
  "denote sem (xs @ ys) \<psi> = (case denote sem xs \<psi> of None \<Rightarrow> None | Some \<psi>' \<Rightarrow> denote sem ys \<psi>')"
  by (induction xs arbitrary: \<psi>) (auto split: option.splits)

lemma sqrt2_sqrt2: "complex_of_real (sqrt 2) * complex_of_real (sqrt 2) = 2"
  by (metis of_real_mult of_real_numeral real_sqrt_mult_self abs_numeral)

lemma map_upd_other: "q \<notin> set qs \<Longrightarrow> map (b(q := v)) qs = map b qs"
  by (induction qs) auto

lemma kickback:
  assumes "aux \<notin> set qs"
  shows "apply_X aux (apply_H aux (flip_marked f qs aux (apply_H aux (apply_X aux \<psi>)))) =
         phase_marked f qs aux \<psi>"
proof (rule ext)
  fix b :: basis
  have m: "map (b(aux := v)) qs = map b qs" for v
    by (rule map_upd_other [OF assms])
  have bT: "b(aux := True) = b" if "b aux" using that by (simp add: fun_upd_idem_iff)
  have bF: "b(aux := False) = b" if "\<not> b aux" using that by (simp add: fun_upd_idem_iff)
  show "apply_X aux (apply_H aux (flip_marked f qs aux (apply_H aux (apply_X aux \<psi>)))) b =
        phase_marked f qs aux \<psi> b"
    by (cases "b aux"; cases "f (map b qs)")
      (simp_all add: apply_X_def apply_H_def flip_marked_def phase_marked_def m bT bF
        add_divide_distrib diff_divide_distrib sqrt2_sqrt2)
qed

lemma marksD:
  assumes "marks sem oracle oracle_args f" and "t \<notin> set (qubits s)"
  obtains ops where "oracle s t oracle_args = Inr (circuit_append ops s)"
    and "\<And>\<psi>. denote sem ops \<psi> = Some (flip_marked f (qubits s) t \<psi>)"
  using assms unfolding marks_def by blast

lemma adapter_operator:
  assumes "marks sem oracle oracle_args f" and "aux \<notin> set (qubits s)"
  shows "\<exists>ops. run_flip_marker_as_phase_marker aux oracle oracle_args s =
                 Inr (circuit_append ops s) \<and>
               (\<forall>\<psi>. denote sem ops \<psi> = Some (phase_marked f (qubits s) aux \<psi>))"
proof -
  let ?s1 = "circuit_append [X aux, H aux] s"
  have "aux \<notin> set (qubits ?s1)" using assms(2) by simp
  from marksD [OF assms(1) this] obtain ops where
    call: "oracle ?s1 aux oracle_args = Inr (circuit_append ops ?s1)" and
    op: "\<And>\<psi>. denote sem ops \<psi> = Some (flip_marked f (qubits s) aux \<psi>)"
    by auto
  let ?all = "[X aux, H aux] @ ops @ [H aux, X aux]"
  have "run_flip_marker_as_phase_marker aux oracle oracle_args s = Inr (circuit_append ?all s)"
    by (simp add: run_flip_marker_as_phase_marker_def Let_def call circuit_append_append)
  moreover have "denote sem ?all \<psi> = Some (phase_marked f (qubits s) aux \<psi>)" for \<psi>
    by (simp add: denote_append op kickback [OF assms(2)])
  ultimately show ?thesis by blast
qed

lemma adapter_appends:
  assumes "\<And>s. oracle s aux args = Inr (circuit_append (g (qubits s)) s)"
  shows "appends (run_flip_marker_as_phase_marker aux oracle args)
           (\<lambda>qs. [X aux, H aux] @ g qs @ [H aux, X aux])"
  by (simp add: appends_def run_flip_marker_as_phase_marker_def Let_def assms
      circuit_append_append)

text \<open>
  With the equal superposition that H alone reaches, the construction marks nothing: on
  a state in which the auxiliary qubit is zero its operator is the identity.
\<close>

lemma plus_state_marks_nothing:
  assumes "marks sem oracle oracle_args f" and "aux \<notin> set (qubits s)"
    and zero: "\<And>b. b aux \<Longrightarrow> \<psi> b = 0"
  shows "\<exists>ops. run_flip_marker_with_plus_state aux oracle oracle_args s =
                 Inr (circuit_append ops s) \<and>
               denote sem ops \<psi> = Some \<psi>"
proof -
  let ?s1 = "circuit_append [H aux] s"
  have "aux \<notin> set (qubits ?s1)" using assms(2) by simp
  from marksD [OF assms(1) this] obtain ops where
    call: "oracle ?s1 aux oracle_args = Inr (circuit_append ops ?s1)" and
    op: "\<And>\<psi>. denote sem ops \<psi> = Some (flip_marked f (qubits s) aux \<psi>)"
    by auto
  let ?all = "[H aux] @ ops @ [H aux]"
  have run: "run_flip_marker_with_plus_state aux oracle oracle_args s = Inr (circuit_append ?all s)"
    by (simp add: run_flip_marker_with_plus_state_def Let_def call circuit_append_append)
  have "apply_H aux (flip_marked f (qubits s) aux (apply_H aux \<psi>)) = \<psi>"
  proof (rule ext)
    fix b :: basis
    have m: "map (b(aux := v)) (qubits s) = map b (qubits s)" for v
      by (rule map_upd_other [OF assms(2)])
    have bT: "b(aux := True) = b" if "b aux" using that by (simp add: fun_upd_idem_iff)
    have bF: "b(aux := False) = b" if "\<not> b aux" using that by (simp add: fun_upd_idem_iff)
    have z: "\<psi> (b(aux := True)) = 0" by (rule zero) simp
    show "apply_H aux (flip_marked f (qubits s) aux (apply_H aux \<psi>)) b = \<psi> b"
      by (cases "b aux"; cases "f (map b (qubits s))")
        (simp_all add: apply_H_def flip_marked_def m bT bF z zero sqrt2_sqrt2)
  qed
  then have "denote sem ?all \<psi> = Some \<psi>"
    by (simp add: denote_append op)
  with run show ?thesis by blast
qed

subsection \<open>The read-out loop\<close>

lemma read_qubit_Inr:
  assumes "read_qubit hist r i sol = Inr sol1"
  shows "length sol1 = length sol \<and>
         sol1 ! i = first_state (hist r (''qubit'' @ str_nat i)) (sol ! i) \<and>
         (\<forall>j. j \<noteq> i \<longrightarrow> sol1 ! j = sol ! j)"
  using assms
  by (auto simp: read_qubit_def first_state_def bindE_def split: sum.splits list.splits if_splits)

lemma read_solution_Inr:
  assumes "read_solution hist r is sol = Inr sol'"
  shows "length sol' = length sol \<and>
         (\<forall>i. sol' ! i =
            (if i \<in> set is then first_state (hist r (''qubit'' @ str_nat i)) (sol ! i) else sol ! i))"
  using assms
proof (induction "is" arbitrary: sol)
  case Nil
  then show ?case by simp
next
  case (Cons j js)
  from Cons.prems obtain sol1 where
    one: "read_qubit hist r j sol = Inr sol1" and
    rest: "read_solution hist r js sol1 = Inr sol'"
    by (auto simp: bindE_eq_Inr)
  from read_qubit_Inr [OF one] have
    len1: "length sol1 = length sol" and
    at_j: "sol1 ! j = first_state (hist r (''qubit'' @ str_nat j)) (sol ! j)" and
    other: "\<And>k. k \<noteq> j \<Longrightarrow> sol1 ! k = sol ! k"
    by blast+
  from Cons.IH [OF rest] have
    len: "length sol' = length sol1" and
    at: "\<And>i. sol' ! i =
      (if i \<in> set js then first_state (hist r (''qubit'' @ str_nat i)) (sol1 ! i) else sol1 ! i)"
    by blast+
  have same: "first_state (hist r (''qubit'' @ str_nat j)) (sol1 ! j) = sol1 ! j"
    unfolding at_j by (simp add: first_state_def split: sum.splits list.splits)
  show ?case
  proof (intro conjI allI)
    show "length sol' = length sol" using len len1 by simp
  next
    fix i
    show "sol' ! i =
      (if i \<in> set (j # js) then first_state (hist r (''qubit'' @ str_nat i)) (sol ! i) else sol ! i)"
    proof (cases "i = j")
      case True
      have "sol' ! j = sol1 ! j"
        unfolding at [of j] using same by simp
      then show ?thesis unfolding True at_j by simp
    next
      case False
      then show ?thesis unfolding at [of i] other [OF False] by simp
    qed
  qed
qed

lemma read_qubit_returns:
  assumes "hist r (''qubit'' @ str_nat i) = Inr h" and "i < length sol"
  shows "\<exists>sol1. read_qubit hist r i sol = Inr sol1"
  using assms by (auto simp: read_qubit_def split: list.splits)

lemma read_solution_returns:
  assumes "\<And>i. i \<in> set is \<Longrightarrow> i < length sol"
    and "\<And>i. i \<in> set is \<Longrightarrow> \<exists>h. hist r (''qubit'' @ str_nat i) = Inr h"
  shows "\<exists>sol'. read_solution hist r is sol = Inr sol'"
  using assms
proof (induction "is" arbitrary: sol)
  case Nil
  show ?case by simp
next
  case (Cons j js)
  have "j < length sol" by (rule Cons.prems(1)) simp
  moreover obtain h where "hist r (''qubit'' @ str_nat j) = Inr h"
    using Cons.prems(2) [of j] by auto
  ultimately obtain sol1 where one: "read_qubit hist r j sol = Inr sol1"
    using read_qubit_returns [of hist r j h sol] by auto
  have len1: "length sol1 = length sol"
    using read_qubit_Inr [OF one] by (rule conjunct1)
  have "\<exists>sol'. read_solution hist r js sol1 = Inr sol'"
  proof (rule Cons.IH)
    fix i assume "i \<in> set js"
    then show "i < length sol1" unfolding len1 by (intro Cons.prems(1)) simp
  next
    fix i assume "i \<in> set js"
    then show "\<exists>h. hist r (''qubit'' @ str_nat i) = Inr h" by (intro Cons.prems(2)) simp
  qed
  then show ?case by (simp add: one)
qed

lemma read_solution_range:
  assumes "read_solution hist r [0..<n] (replicate n 0) = Inr sol"
  shows "length sol = n"
    and "i < n \<Longrightarrow> sol ! i = first_state (hist r (''qubit'' @ str_nat i)) 0"
proof -
  note a = read_solution_Inr [OF assms]
  show "length sol = n" using a by simp
  assume "i < n"
  then show "sol ! i = first_state (hist r (''qubit'' @ str_nat i)) 0"
    using conjunct2 [OF a, THEN spec, of i] by simp
qed

lemma read_solution_range_returns:
  assumes "\<And>i. i < n \<Longrightarrow> \<exists>h. hist r (''qubit'' @ str_nat i) = Inr h"
  shows "\<exists>sol. read_solution hist r [0..<n] (replicate n 0) = Inr sol"
  by (rule read_solution_returns) (use assms in simp_all)



subsection \<open>Keys and qubit names\<close>

lemma digit_char_inj:
  assumes "a < 10" and "b < 10" and "digit_char a = digit_char b"
  shows "a = b"
proof -
  have d: "distinct ''0123456789''" by simp
  have "length ''0123456789'' = 10" by simp
  with assms d show ?thesis
    unfolding digit_char_def by (simp only: nth_eq_iff_index_eq)
qed

lemma str_nat_small: "n < 10 \<Longrightarrow> str_nat n = [digit_char n]"
  by (simp add: str_nat.simps)

lemma str_nat_large:
  "\<not> n < 10 \<Longrightarrow> str_nat n = str_nat (n div 10) @ [digit_char (n mod 10)]"
  by (subst str_nat.simps) simp

lemma str_nat_not_Nil: "str_nat n \<noteq> []"
  by (cases "n < 10") (simp_all add: str_nat_small str_nat_large)

lemma str_nat_inj: "str_nat n = str_nat m \<Longrightarrow> n = m"
proof (induction n arbitrary: m rule: less_induct)
  case (less n)
  show ?case
  proof (cases "n < 10")
    case n: True
    show ?thesis
    proof (cases "m < 10")
      case True
      with n less.prems show ?thesis
        by (simp add: str_nat_small digit_char_inj)
    next
      case False
      with n less.prems str_nat_not_Nil [of "m div 10"] show ?thesis
        by (simp add: str_nat_small str_nat_large)
    qed
  next
    case n: False
    show ?thesis
    proof (cases "m < 10")
      case True
      with n less.prems str_nat_not_Nil [of "n div 10"] show ?thesis
        by (simp add: str_nat_small str_nat_large)
    next
      case False
      with n less.prems have
        pre: "str_nat (n div 10) = str_nat (m div 10)" and
        dig: "digit_char (n mod 10) = digit_char (m mod 10)"
        by (simp_all add: str_nat_large)
      have "n div 10 < n" using n by simp
      from less.IH [OF this pre] have "n div 10 = m div 10" .
      moreover have "n mod 10 = m mod 10"
        by (rule digit_char_inj [OF _ _ dig]) simp_all
      ultimately show ?thesis
        by (metis div_mult_mod_eq)
    qed
  qed
qed

lemma distinct_NamedQubit_range: "distinct (NamedQubit_range n prefix)"
  by (simp add: NamedQubit_range_def distinct_map inj_on_def str_nat_inj)

lemma length_NamedQubit_range [simp]: "length (NamedQubit_range n prefix) = nat n"
  by (simp add: NamedQubit_range_def)

lemma nth_NamedQubit_range:
  "i < nat n \<Longrightarrow> NamedQubit_range n prefix ! i = NamedQubit (prefix @ str_nat i)"
  by (simp add: NamedQubit_range_def)

lemma measure_each_range:
  "measure_each (NamedQubit_range n prefix) =
     map (\<lambda>i. Measure (NamedQubit (prefix @ str_nat i)) (prefix @ str_nat i)) [0..<nat n]"
  by (simp add: measure_each_def NamedQubit_range_def)

lemma str_nat_0: "str_nat 0 = ''0''"
  by (simp add: str_nat_small digit_char_def)

lemma str_nat_1: "str_nat (Suc 0) = ''1''"
  by (simp add: str_nat_small digit_char_def)

lemma str_nat_2: "str_nat (Suc (Suc 0)) = ''2''"
  by (simp add: str_nat_small digit_char_def)

subsection \<open>The driver\<close>

lemma run_grover_search_Inr:
  assumes "run_grover_search K n oracle oracle_args = Inr sol"
  obtains s r where "build_circuit K n oracle oracle_args = Inr s"
    and "simulator_run K (circuit s) 1 = Inr r"
    and "read_solution (histogram K) r [0..<nat n] (replicate (nat n) 0) = Inr sol"
  using assms unfolding run_grover_search_def by (auto simp: bindE_eq_Inr)

lemma build_circuit_appends:
  fixes K :: "('o, 'a, 'g, 'r) collaborators"
  assumes "appends (flip_marker_as_phase_marker K oracle oracle_args) marked_oracle"
    and "appends (flip_marker_as_phase_marker K (check_if_all_zeros K) None) marked_zeros"
  shows "build_circuit K n oracle oracle_args =
           (if 2048 \<le> n then Inl OverflowError
            else Inr \<lparr>circuit =
                        search_ops marked_oracle marked_zeros (NamedQubit_range n ''qubit'') @
                        measure_each (NamedQubit_range n ''qubit''),
                      qubits = NamedQubit_range n ''qubit''\<rparr>)"
proof -
  have "(2048 \<le> nat n) = (2048 \<le> n)" by linarith
  then show ?thesis
    by (simp add: build_circuit_def Let_def grover_search_appends [OF assms] circuit_append_def)
qed


subsection \<open>The example collaborators\<close>

lemma example_marked_bits:
  "appends (run_flip_marker_as_phase_marker phase_marker check_bits args)
     (example_marked (bits_equal args))"
  using adapter_appends
    [of check_bits phase_marker args "\<lambda>qs. [Ext (FlipIf (bits_equal args) qs phase_marker)]"]
  by (simp add: check_bits_def example_marked_def [abs_def])

lemma example_marked_zeros:
  "appends (run_flip_marker_as_phase_marker phase_marker check_zeros args)
     (example_marked all_zero)"
  using adapter_appends
    [of check_zeros phase_marker args "\<lambda>qs. [Ext (FlipIf all_zero qs phase_marker)]"]
  by (simp add: check_zeros_def example_marked_def [abs_def])

lemma example_extends_bits:
  "extends (run_flip_marker_as_phase_marker phase_marker check_bits args)"
  using example_marked_bits [of args] by (auto simp: appends_def extends_def)

lemma example_extends_zeros:
  "extends (run_flip_marker_as_phase_marker phase_marker check_zeros args)"
  using example_marked_zeros [of args] by (auto simp: appends_def extends_def)



lemma example_marks_bits: "marks sem_flag check_bits args (bits_equal args)"
  unfolding marks_def
proof (intro allI impI)
  fix s :: "flag_gate state" and t
  let ?ops = "[Ext (FlipIf (bits_equal args) (qubits s) t)]"
  have "check_bits s t args = Inr (circuit_append ?ops s)"
    by (simp add: check_bits_def)
  moreover have "\<forall>\<psi>. denote sem_flag ?ops \<psi> =
      Some (flip_marked (bits_equal args) (qubits s) t \<psi>)"
    by simp
  ultimately show "\<exists>ops. check_bits s t args = Inr (circuit_append ops s) \<and>
      (\<forall>\<psi>. denote sem_flag ops \<psi> = Some (flip_marked (bits_equal args) (qubits s) t \<psi>))"
    by blast
qed

lemma example_build:
  "build_circuit example_collaborators n check_bits args =
     (if 2048 \<le> n then Inl OverflowError
      else Inr \<lparr>circuit =
            search_ops
              (example_marked (bits_equal args))
              (example_marked all_zero)
              (NamedQubit_range n ''qubit'') @
            measure_each (NamedQubit_range n ''qubit''),
          qubits = NamedQubit_range n ''qubit''\<rparr>)"
  by (rule build_circuit_appends)
    (simp_all add: example_collaborators_def example_marked_bits example_marked_zeros)

lemma example_run_2:
  "run_grover_search example_collaborators 2 check_bits args = Inr [1, 0]"
  by (simp add: run_grover_search_def example_build)
    (simp add: example_collaborators_def example_run_def upt_rec [of 0] upt_rec [of 1]
      read_qubit_def str_nat_0 str_nat_1 eval_nat_numeral)

section \<open>The claims\<close>

subsection \<open>Claim C1: the number of rounds\<close>




subsection \<open>Claim C2: the empty register\<close>




subsection \<open>Claim C3: the adapter\<close>

text \<open>
  Claim C3. For every circuit and register, every oracle that marks a predicate \<open>f\<close>
  with its argument object, and every auxiliary qubit outside the register, the adapter
  returns having appended operations to the circuit it received; their operator negates
  the amplitude of exactly the basis states whose register bits satisfy \<open>f\<close> while the
  auxiliary qubit is zero, and leaves every other amplitude as it was. On a state in
  which the auxiliary qubit is zero, the outcome is therefore the state with the marked
  amplitudes negated and the auxiliary qubit zero again, in no superposition with the
  register.
\<close>

theorem adapter_phase_marks:
  assumes "marks sem oracle oracle_args f" and "aux \<notin> set (qubits s)"
  shows "\<exists>ops. run_flip_marker_as_phase_marker aux oracle oracle_args s =
                 Inr (s\<lparr>circuit := circuit s @ ops\<rparr>) \<and>
               (\<forall>\<psi>. denote sem ops \<psi> =
                      Some (\<lambda>b. if f (map b (qubits s)) \<and> \<not> b aux then - \<psi> b else \<psi> b)) \<and>
               (\<forall>\<psi>. (\<forall>b. b aux \<longrightarrow> \<psi> b = 0) \<longrightarrow>
                      denote sem ops \<psi> =
                        Some (\<lambda>b. if b aux then 0
                                  else if f (map b (qubits s)) then - \<psi> b else \<psi> b))"
proof -
  from adapter_operator [OF assms] obtain ops where
    run: "run_flip_marker_as_phase_marker aux oracle oracle_args s = Inr (circuit_append ops s)"
    and op: "\<And>\<psi>. denote sem ops \<psi> = Some (phase_marked f (qubits s) aux \<psi>)"
    by blast
  have zero: "phase_marked f (qubits s) aux \<psi> =
                (\<lambda>b. if b aux then 0 else if f (map b (qubits s)) then - \<psi> b else \<psi> b)"
    if "\<forall>b. b aux \<longrightarrow> \<psi> b = 0" for \<psi>
    using that by (auto simp: phase_marked_def)
  have "run_flip_marker_as_phase_marker aux oracle oracle_args s =
          Inr (s\<lparr>circuit := circuit s @ ops\<rparr>)"
    using run by (simp add: circuit_append_def)
  moreover have "\<forall>\<psi>. denote sem ops \<psi> =
      Some (\<lambda>b. if f (map b (qubits s)) \<and> \<not> b aux then - \<psi> b else \<psi> b)"
    using op by (simp add: phase_marked_def)
  moreover have "\<forall>\<psi>. (\<forall>b. b aux \<longrightarrow> \<psi> b = 0) \<longrightarrow>
      denote sem ops \<psi> =
        Some (\<lambda>b. if b aux then 0 else if f (map b (qubits s)) then - \<psi> b else \<psi> b)"
    using op zero by simp
  ultimately show ?thesis by blast
qed

theorem adapter_phase_marks_witness:
  "run_flip_marker_as_phase_marker phase_marker check_bits (Some [True, False])
       \<lparr>circuit = [], qubits = [NamedQubit ''qubit0'', NamedQubit ''qubit1'']\<rparr> =
     Inr \<lparr>circuit =
            [X phase_marker, H phase_marker,
             Ext (FlipIf (bits_equal (Some [True, False]))
                    [NamedQubit ''qubit0'', NamedQubit ''qubit1''] phase_marker),
             H phase_marker, X phase_marker],
          qubits = [NamedQubit ''qubit0'', NamedQubit ''qubit1'']\<rparr> \<and>
   (\<forall>\<psi>. denote sem_flag
          [X phase_marker, H phase_marker,
           Ext (FlipIf (bits_equal (Some [True, False]))
                  [NamedQubit ''qubit0'', NamedQubit ''qubit1''] phase_marker),
           H phase_marker, X phase_marker] \<psi> =
        Some (\<lambda>b. if [b (NamedQubit ''qubit0''), b (NamedQubit ''qubit1'')] = [True, False] \<and>
                     \<not> b phase_marker
                  then - \<psi> b else \<psi> b))"
proof -
  let ?s = "\<lparr>circuit = [], qubits = [NamedQubit ''qubit0'', NamedQubit ''qubit1'']\<rparr> :: flag_gate state"
  let ?ops = "[X phase_marker, H phase_marker,
             Ext (FlipIf (bits_equal (Some [True, False]))
                    [NamedQubit ''qubit0'', NamedQubit ''qubit1''] phase_marker),
             H phase_marker, X phase_marker]"
  have out: "phase_marker \<notin> set (qubits ?s)"
    by (simp add: phase_marker_def)
  have run: "run_flip_marker_as_phase_marker phase_marker check_bits (Some [True, False]) ?s =
          Inr (?s\<lparr>circuit := circuit ?s @ ?ops\<rparr>)"
    by (simp add: run_flip_marker_as_phase_marker_def check_bits_def Let_def circuit_append_def)
  from adapter_phase_marks [OF example_marks_bits out] obtain ops where
    1: "run_flip_marker_as_phase_marker phase_marker check_bits (Some [True, False]) ?s =
          Inr (?s\<lparr>circuit := circuit ?s @ ops\<rparr>)" and
    2: "\<forall>\<psi>. denote sem_flag ops \<psi> =
          Some (\<lambda>b. if bits_equal (Some [True, False]) (map b (qubits ?s)) \<and>
                       \<not> b phase_marker
                    then - \<psi> b else \<psi> b)"
    by blast
  from 1 run have "ops = ?ops" by simp
  with 2 run show ?thesis by (simp add: bits_equal_def)
qed

subsection \<open>Claim C4: one round\<close>

text \<open>
  Claim C4. When the adapter, called with the caller's oracle and with the all-zero
  oracle, appends the operations \<open>marked_oracle\<close> and \<open>marked_zeros\<close> of the register,
  one call of \<open>grover_iteration\<close> appends, in this order, the phase-marked caller oracle,
  a Hadamard on every register qubit, the phase-marked all-zero oracle, which is called
  with \<open>None\<close> whatever the caller's arguments are, and a Hadamard on every register
  qubit again.
\<close>

theorem grover_iteration_order:
  fixes rfm :: "('o, 'a, 'g) adapter"
  assumes "appends (rfm oracle oracle_args) marked_oracle"
    and "appends (rfm zeros None) marked_zeros"
  shows "grover_iteration rfm zeros oracle oracle_args s =
           Inr (s\<lparr>circuit := circuit s @ marked_oracle (qubits s) @ map H (qubits s) @
                                marked_zeros (qubits s) @ map H (qubits s)\<rparr>)"
  using appendsD [OF grover_iteration_appends [OF assms], of s]
  by (simp add: round_ops_def circuit_append_def)

theorem grover_iteration_order_witness:
  "appends (run_flip_marker_as_phase_marker phase_marker check_bits (Some [True, False]))
     (example_marked (bits_equal (Some [True, False]))) \<and>
   appends (run_flip_marker_as_phase_marker phase_marker check_zeros None)
     (example_marked all_zero) \<and>
   grover_iteration (run_flip_marker_as_phase_marker phase_marker) check_zeros check_bits
       (Some [True, False])
       \<lparr>circuit = [], qubits = [NamedQubit ''qubit0'', NamedQubit ''qubit1'']\<rparr> =
     Inr \<lparr>circuit =
            [X phase_marker, H phase_marker,
             Ext (FlipIf (bits_equal (Some [True, False]))
                    [NamedQubit ''qubit0'', NamedQubit ''qubit1''] phase_marker),
             H phase_marker, X phase_marker,
             H (NamedQubit ''qubit0''), H (NamedQubit ''qubit1''),
             X phase_marker, H phase_marker,
             Ext (FlipIf all_zero
                    [NamedQubit ''qubit0'', NamedQubit ''qubit1''] phase_marker),
             H phase_marker, X phase_marker,
             H (NamedQubit ''qubit0''), H (NamedQubit ''qubit1'')],
          qubits = [NamedQubit ''qubit0'', NamedQubit ''qubit1'']\<rparr>"
  using grover_iteration_order
      [of "run_flip_marker_as_phase_marker phase_marker" check_bits "Some [True, False]" _
          check_zeros _
          "\<lparr>circuit = [], qubits = [NamedQubit ''qubit0'', NamedQubit ''qubit1'']\<rparr>",
       OF example_marked_bits example_marked_zeros]
    example_marked_bits [of "Some [True, False]"] example_marked_zeros [of None]
  by (simp add: example_marked_def)

subsection \<open>Claim C5: the order of the search\<close>

text \<open>
  Claim C5. \<open>grover_search\<close> first appends a Hadamard on every register qubit, then
  computes the number of rounds and runs that many rounds, each of them
  \<open>grover_iteration\<close> with the same adapter, oracles and arguments on the shared circuit
  and register; when the adapter's calls only extend the circuit, the Hadamard layer
  sits right behind the circuit the search received, in front of everything the rounds
  append.
\<close>

theorem grover_search_order:
  fixes rfm :: "('o, 'a, 'g) adapter"
  assumes "extends (rfm oracle oracle_args)" and "extends (rfm zeros None)"
  shows "grover_search rfm zeros oracle oracle_args s =
           bindE (iterations (length (qubits s))) (\<lambda>k.
             for_range (nat k) (grover_iteration rfm zeros oracle oracle_args)
               (s\<lparr>circuit := circuit s @ map H (qubits s)\<rparr>)) \<and>
         (\<forall>s'. grover_search rfm zeros oracle oracle_args s = Inr s' \<longrightarrow>
            (\<exists>rounds. circuit s' = circuit s @ map H (qubits s) @ rounds))"
proof
  show loop: "grover_search rfm zeros oracle oracle_args s =
           bindE (iterations (length (qubits s))) (\<lambda>k.
             for_range (nat k) (grover_iteration rfm zeros oracle oracle_args)
               (s\<lparr>circuit := circuit s @ map H (qubits s)\<rparr>))"
    by (simp add: grover_search_def Let_def circuit_append_def H_on_each_def)
  show "\<forall>s'. grover_search rfm zeros oracle oracle_args s = Inr s' \<longrightarrow>
            (\<exists>rounds. circuit s' = circuit s @ map H (qubits s) @ rounds)"
  proof (intro allI impI)
    fix s'
    assume "grover_search rfm zeros oracle oracle_args s = Inr s'"
    then obtain k where run: "for_range (nat k)
             (grover_iteration rfm zeros oracle oracle_args)
             (s\<lparr>circuit := circuit s @ map H (qubits s)\<rparr>) = Inr s'"
      unfolding loop by (auto simp: bindE_eq_Inr)
    have "extends (for_range (nat k) (grover_iteration rfm zeros oracle oracle_args))"
      by (rule for_range_extends [OF grover_iteration_extends [OF assms]])
    from extendsD [OF this run] show "\<exists>rounds. circuit s' = circuit s @ map H (qubits s) @ rounds"
      by auto
  qed
qed

theorem grover_search_order_witness:
  "grover_search (run_flip_marker_as_phase_marker phase_marker) check_zeros check_bits
       (Some [True])
       \<lparr>circuit = [X (NamedQubit ''a'')], qubits = [NamedQubit ''a'']\<rparr> =
     Inr \<lparr>circuit =
            [X (NamedQubit ''a''), H (NamedQubit ''a''),
             X phase_marker, H phase_marker,
             Ext (FlipIf (bits_equal (Some [True])) [NamedQubit ''a''] phase_marker),
             H phase_marker, X phase_marker,
             H (NamedQubit ''a''),
             X phase_marker, H phase_marker,
             Ext (FlipIf all_zero [NamedQubit ''a''] phase_marker),
             H phase_marker, X phase_marker,
             H (NamedQubit ''a'')],
          qubits = [NamedQubit ''a'']\<rparr>"
  using grover_search_order
      [of "run_flip_marker_as_phase_marker phase_marker" check_bits "Some [True]"
          check_zeros
          "\<lparr>circuit = [X (NamedQubit ''a'')], qubits = [NamedQubit ''a'']\<rparr>",
       OF example_extends_bits example_extends_zeros]
    appendsD [OF grover_iteration_appends
        [of "run_flip_marker_as_phase_marker phase_marker" check_bits "Some [True]" _
            check_zeros _, OF example_marked_bits example_marked_zeros],
      of "\<lparr>circuit = [X (NamedQubit ''a''), H (NamedQubit ''a'')],
           qubits = [NamedQubit ''a'']\<rparr>"]
  by (simp add: iterations_eq round_count_1 for_range_1 round_ops_def circuit_append_def
      example_marked_def)

subsection \<open>Claim C6: one trial\<close>

text \<open>
  Claim C6. When \<open>run_grover_search\<close> returns, it has handed the circuit it built to the
  simulator once, asking for one repetition, and every entry of the answer is the state
  of the first item of the histogram of that one result under the entry's key, which
  for a result of one trial is its only item. The answer is the same for every
  simulator that gives this result for this circuit and one repetition.
\<close>

theorem run_grover_search_single_trial:
  assumes "run_grover_search K n oracle oracle_args = Inr sol"
  shows "\<exists>s r. build_circuit K n oracle oracle_args = Inr s \<and>
               simulator_run K (circuit s) 1 = Inr r \<and>
               (\<forall>i<nat n. sol ! i = first_state (histogram K r (''qubit'' @ str_nat i)) 0) \<and>
               (\<forall>run'. run' (circuit s) 1 = Inr r \<longrightarrow>
                  run_grover_search (K\<lparr>simulator_run := run'\<rparr>) n oracle oracle_args = Inr sol)"
proof -
  from run_grover_search_Inr [OF assms] obtain s r where
    b: "build_circuit K n oracle oracle_args = Inr s" and
    r: "simulator_run K (circuit s) 1 = Inr r" and
    d: "read_solution (histogram K) r [0..<nat n] (replicate (nat n) 0) = Inr sol"
    by blast
  have "\<forall>i<nat n. sol ! i = first_state (histogram K r (''qubit'' @ str_nat i)) 0"
    using read_solution_range(2) [OF d] by blast
  moreover have "run_grover_search (K\<lparr>simulator_run := run'\<rparr>) n oracle oracle_args = Inr sol"
    if "run' (circuit s) 1 = Inr r" for run'
  proof -
    have "build_circuit (K\<lparr>simulator_run := run'\<rparr>) n oracle oracle_args = Inr s"
      using b by (simp add: build_circuit_def)
    then show ?thesis
      using that d by (simp add: run_grover_search_def)
  qed
  ultimately show ?thesis using b r by blast
qed

theorem run_grover_search_single_trial_witness:
  "\<exists>s r. build_circuit example_collaborators 2 check_bits (Some [True, False]) = Inr s \<and>
         simulator_run example_collaborators (circuit s) 1 = Inr r \<and>
         [1, 0] ! 0 = first_state (histogram example_collaborators r ''qubit0'') 0 \<and>
         [1, 0] ! 1 = first_state (histogram example_collaborators r ''qubit1'') 0"
proof -
  from run_grover_search_single_trial [OF example_run_2 [of "Some [True, False]"]]
  obtain s r where
    "build_circuit example_collaborators 2 check_bits (Some [True, False]) = Inr s" and
    "simulator_run example_collaborators (circuit s) 1 = Inr r" and
    a: "\<forall>i<nat 2. [1, 0] ! i =
          first_state (histogram example_collaborators r (''qubit'' @ str_nat i)) 0"
    by blast
  moreover from a have "[1, 0] ! 0 = first_state (histogram example_collaborators r ''qubit0'') 0"
    using str_nat_0 by (metis append.simps nat_numeral pos2 append_Cons append_Nil)
  moreover from a have "[1, 0] ! 1 = first_state (histogram example_collaborators r ''qubit1'') 0"
    using str_nat_1 by (metis One_nat_def nat_numeral one_less_numeral_iff semiring_norm(76)
        append_Cons append_Nil)
  ultimately show ?thesis by blast
qed

subsection \<open>Claim C7: the answer vector\<close>




subsection \<open>Claim C8: what the two builders leave alone\<close>

text \<open>
  Claim C8. When the adapter's two calls leave the qubit list alone and keep the
  circuit they receive as a prefix, so do \<open>grover_iteration\<close> and \<open>grover_search\<close>: the
  register is the same afterwards and the circuit is the old one with operations
  appended. Neither function is given the simulator, and what they compute is the same
  whatever simulator the collaborators hold.
\<close>

theorem grover_frame:
  fixes K :: "('o, 'a, 'g, 'r) collaborators"
  assumes "extends (flip_marker_as_phase_marker K oracle oracle_args)"
    and "extends (flip_marker_as_phase_marker K (check_if_all_zeros K) None)"
  shows "extends (grover_iteration (flip_marker_as_phase_marker K) (check_if_all_zeros K)
                    oracle oracle_args) \<and>
         extends (grover_search (flip_marker_as_phase_marker K) (check_if_all_zeros K)
                    oracle oracle_args) \<and>
         grover_iteration
             (flip_marker_as_phase_marker (K\<lparr>simulator_run := run', histogram := hist'\<rparr>))
             (check_if_all_zeros (K\<lparr>simulator_run := run', histogram := hist'\<rparr>)) =
           grover_iteration (flip_marker_as_phase_marker K) (check_if_all_zeros K) \<and>
         grover_search
             (flip_marker_as_phase_marker (K\<lparr>simulator_run := run', histogram := hist'\<rparr>))
             (check_if_all_zeros (K\<lparr>simulator_run := run', histogram := hist'\<rparr>)) =
           grover_search (flip_marker_as_phase_marker K) (check_if_all_zeros K)"
  using grover_iteration_extends [OF assms] grover_search_extends [OF assms]
  by simp

theorem grover_frame_witness:
  "extends (grover_iteration (flip_marker_as_phase_marker example_collaborators)
              (check_if_all_zeros example_collaborators) check_bits (Some [True, False])) \<and>
   extends (grover_search (flip_marker_as_phase_marker example_collaborators)
              (check_if_all_zeros example_collaborators) check_bits (Some [True, False]))"
proof -
  have a: "extends (flip_marker_as_phase_marker example_collaborators check_bits
                      (Some [True, False]))"
    by (simp add: example_collaborators_def example_extends_bits)
  have b: "extends (flip_marker_as_phase_marker example_collaborators
                      (check_if_all_zeros example_collaborators) None)"
    by (simp add: example_collaborators_def example_extends_zeros)
  show ?thesis
    using grover_frame [OF a b] by simp
qed

subsection \<open>Claim C9: a key without an outcome\<close>

text \<open>
  Claim C9. When the circuit is built and run and \<open>histogram\<close> raises for none of the
  keys, an index whose histogram has no item keeps the 0 the answer was created with:
  \<open>run_grover_search\<close> returns, and the entry is 0.
\<close>

theorem missing_outcome_keeps_zero:
  assumes "build_circuit K n oracle oracle_args = Inr s"
    and "simulator_run K (circuit s) 1 = Inr r"
    and "\<And>j. j < nat n \<Longrightarrow> \<exists>h. histogram K r (''qubit'' @ str_nat j) = Inr h"
    and "i < nat n"
    and "histogram K r (''qubit'' @ str_nat i) = Inr []"
  shows "\<exists>sol. run_grover_search K n oracle oracle_args = Inr sol \<and>
               length sol = nat n \<and> sol ! i = 0"
proof -
  have "\<exists>sol. read_solution (histogram K) r [0..<nat n] (replicate (nat n) 0) = Inr sol"
    by (rule read_solution_range_returns) (rule assms(3))
  then obtain sol where
    d: "read_solution (histogram K) r [0..<nat n] (replicate (nat n) 0) = Inr sol" by blast
  have "run_grover_search K n oracle oracle_args = Inr sol"
    using assms(2) d by (simp add: run_grover_search_def assms(1))
  moreover have "sol ! i = 0"
    using read_solution_range(2) [OF d assms(4)] assms(5) by (simp add: first_state_def)
  ultimately show ?thesis using read_solution_range(1) [OF d] by blast
qed

theorem missing_outcome_keeps_zero_witness:
  "\<exists>sol. run_grover_search example_collaborators 3 check_bits (Some [True, False, False]) =
           Inr sol \<and> length sol = 3 \<and> sol ! 2 = 0"
proof -
  obtain s where
    b: "build_circuit example_collaborators 3 check_bits (Some [True, False, False]) = Inr s"
    using example_build [of 3] by simp
  have r: "simulator_run example_collaborators (circuit s) 1 =
             Inr (\<lambda>key. if key = ''qubit0'' then [(1, 1)]
                        else if key = ''qubit1'' then [(0, 1)] else [])"
    by (simp add: example_collaborators_def example_run_def del: One_nat_def)
  have h: "\<exists>h. histogram example_collaborators r' (''qubit'' @ str_nat j) = Inr h" for r' j
    by (simp add: example_collaborators_def)
  have e: "histogram example_collaborators
             (\<lambda>key. if key = ''qubit0'' then [(1, 1)]
                    else if key = ''qubit1'' then [(0, 1)] else [])
             (''qubit'' @ str_nat 2) = Inr []"
    using str_nat_2 by (simp add: example_collaborators_def eval_nat_numeral)
  show ?thesis
    using missing_outcome_keeps_zero [OF b r h _ e] by simp
qed

subsection \<open>Claim C10: names and keys\<close>

text \<open>
  Claim C10. When the adapter's two calls append \<open>marked_oracle\<close> and \<open>marked_zeros\<close>,
  every call of \<open>run_grover_search\<close> builds the same thing from nothing: the register is
  the list of the \<open>N\<close> distinct qubits named \<open>qubit0\<close> to \<open>qubit{N-1}\<close>, and the circuit,
  unless the number of rounds overflows, holds the operations of the search on that
  register followed by one measurement of each register qubit under the qubit's own
  name, and nothing else. Entry \<open>i\<close> of the answer is read under the name of register
  qubit \<open>i\<close>.
\<close>

theorem register_naming:
  fixes K :: "('o, 'a, 'g, 'r) collaborators"
  assumes "appends (flip_marker_as_phase_marker K oracle oracle_args) marked_oracle"
    and "appends (flip_marker_as_phase_marker K (check_if_all_zeros K) None) marked_zeros"
  shows "NamedQubit_range n ''qubit'' =
           map (\<lambda>i. NamedQubit (''qubit'' @ str_nat i)) [0..<nat n] \<and>
         distinct (NamedQubit_range n ''qubit'') \<and>
         build_circuit K n oracle oracle_args =
           (if n < 2048
            then Inr \<lparr>circuit =
                        search_ops marked_oracle marked_zeros (NamedQubit_range n ''qubit'') @
                        map (\<lambda>i. Measure (NamedQubit_range n ''qubit'' ! i)
                                   (''qubit'' @ str_nat i)) [0..<nat n],
                      qubits = NamedQubit_range n ''qubit''\<rparr>
            else Inl OverflowError) \<and>
         (\<forall>s r sol i. build_circuit K n oracle oracle_args = Inr s \<longrightarrow>
            simulator_run K (circuit s) 1 = Inr r \<longrightarrow>
            run_grover_search K n oracle oracle_args = Inr sol \<longrightarrow> i < nat n \<longrightarrow>
            sol ! i = first_state (histogram K r (''qubit'' @ str_nat i)) 0 \<and>
            str_qid (qubits s ! i) = ''qubit'' @ str_nat i)"
proof -
  let ?R = "NamedQubit_range n ''qubit''"
  have q: "?R = map (\<lambda>i. NamedQubit (''qubit'' @ str_nat i)) [0..<nat n]"
    by (simp add: NamedQubit_range_def)
  have d: "distinct ?R"
    by (rule distinct_NamedQubit_range)
  have m: "measure_each ?R = map (\<lambda>i. Measure (?R ! i) (''qubit'' @ str_nat i)) [0..<nat n]"
    unfolding measure_each_range
    by (rule map_cong) (simp_all add: nth_NamedQubit_range)
  have b: "build_circuit K n oracle oracle_args =
           (if n < 2048
            then Inr \<lparr>circuit = search_ops marked_oracle marked_zeros ?R @
                        map (\<lambda>i. Measure (?R ! i) (''qubit'' @ str_nat i)) [0..<nat n],
                      qubits = ?R\<rparr>
            else Inl OverflowError)"
    unfolding build_circuit_appends [OF assms] m by auto
  have rd: "sol ! i = first_state (histogram K r (''qubit'' @ str_nat i)) 0 \<and>
            str_qid (qubits s ! i) = ''qubit'' @ str_nat i"
    if s: "build_circuit K n oracle oracle_args = Inr s"
      and r: "simulator_run K (circuit s) 1 = Inr r"
      and run: "run_grover_search K n oracle oracle_args = Inr sol"
      and i: "i < nat n"
    for s r sol i
  proof -
    from run_grover_search_Inr [OF run] obtain s' r' where
      "build_circuit K n oracle oracle_args = Inr s'" and
      "simulator_run K (circuit s') 1 = Inr r'" and
      rs: "read_solution (histogram K) r' [0..<nat n] (replicate (nat n) 0) = Inr sol"
      by blast
    with s r have "r' = r" by simp
    moreover have "qubits s = ?R"
      using s b by (auto split: if_splits)
    ultimately show ?thesis
      using read_solution_range(2) [OF rs i] i by (simp add: nth_NamedQubit_range)
  qed
  show ?thesis
    using q d b rd by blast
qed

theorem register_naming_witness:
  "NamedQubit_range 2 ''qubit'' = [NamedQubit ''qubit0'', NamedQubit ''qubit1''] \<and>
   distinct (NamedQubit_range 2 ''qubit'') \<and>
   (\<exists>s. build_circuit example_collaborators 2 check_bits (Some [True, False]) = Inr s \<and>
        qubits s = [NamedQubit ''qubit0'', NamedQubit ''qubit1''] \<and>
        drop (length (circuit s) - 2) (circuit s) =
          [Measure (NamedQubit ''qubit0'') ''qubit0'',
           Measure (NamedQubit ''qubit1'') ''qubit1''])"
proof -
  have a: "appends (flip_marker_as_phase_marker example_collaborators check_bits
                      (Some [True, False]))
             (example_marked (bits_equal (Some [True, False])))"
    using example_marked_bits [of "Some [True, False]"]
    by (simp add: example_collaborators_def)
  have z: "appends (flip_marker_as_phase_marker example_collaborators
                      (check_if_all_zeros example_collaborators) None)
             (example_marked all_zero)"
    using example_marked_zeros [of None]
    by (simp add: example_collaborators_def)
  have two: "[0..<2] = [0, Suc 0]"
    by (simp add: upt_rec [of 0] upt_rec [of 1] eval_nat_numeral)
  from register_naming [OF a z, of 2] show ?thesis
    by (simp add: two str_nat_0 str_nat_1 NamedQubit_range_def search_ops_def)
qed

end
